theory Spec2Isabelle
  imports Complex_Main "HOL-Library.Sublist" "HOL-Library.AList" "HOL-Library.Word"
begin

section \<open>Python text primitives\<close>

text \<open>
  Python's \<open>str\<close> is a sequence of code points. The model covers the code points
  below 256, one \<^typ>\<open>char\<close> per code point, so \<^const>\<open>length\<close> counts what
  Python's \<open>len\<close> counts on such text.
\<close>

definition py_isspace :: "char \<Rightarrow> bool" where
  \<comment> \<open>the characters \<open>str.strip()\<close> and \<open>str.split()\<close> treat as whitespace\<close>
  "py_isspace c =
     (let n = (of_char c :: nat)
      in (9 \<le> n \<and> n \<le> 13) \<or> (28 \<le> n \<and> n \<le> 32) \<or> n = 133 \<or> n = 160)"

definition py_isupper :: "char \<Rightarrow> bool" where
  \<comment> \<open>the characters \<open>str.lower()\<close> changes: A-Z and the Latin-1 capitals\<close>
  "py_isupper c =
     (let n = (of_char c :: nat)
      in (65 \<le> n \<and> n \<le> 90) \<or> (192 \<le> n \<and> n \<le> 222 \<and> n \<noteq> 215))"

fun set_bit5 :: "char \<Rightarrow> char" where
  \<comment> \<open>adds 32 to a code point whose bit 5 is clear\<close>
  "set_bit5 (Char b0 b1 b2 b3 b4 b5 b6 b7) = Char b0 b1 b2 b3 b4 True b6 b7"

definition py_lower_char :: "char \<Rightarrow> char" where
  "py_lower_char c = (if py_isupper c then set_bit5 c else c)"

definition py_lower :: "string \<Rightarrow> string" where
  "py_lower s = map py_lower_char s"

definition py_strip :: "string \<Rightarrow> string" where
  "py_strip s = rev (dropWhile py_isspace (rev (dropWhile py_isspace s)))"

fun split_ws_aux :: "string \<Rightarrow> string \<Rightarrow> string list" where
  "split_ws_aux cur [] = (if cur = [] then [] else [cur])"
| "split_ws_aux cur (c # cs) =
     (if py_isspace c
      then (if cur = [] then split_ws_aux [] cs else cur # split_ws_aux [] cs)
      else split_ws_aux (cur @ [c]) cs)"

definition py_split_ws :: "string \<Rightarrow> string list" where
  \<comment> \<open>\<open>s.split()\<close>: the maximal runs of non-whitespace\<close>
  "py_split_ws s = split_ws_aux [] s"

fun py_join :: "string \<Rightarrow> string list \<Rightarrow> string" where
  "py_join sep [] = []"
| "py_join sep [w] = w"
| "py_join sep (w # v # ws) = w @ sep @ py_join sep (v # ws)"

definition punctuation :: string where
  \<comment> \<open>\<open>string.punctuation\<close>\<close>
  "punctuation =
     ''!'' @ [CHR 0x22] @ ''#$%&'' @ [CHR 0x27] @ ''()*+,-./:;<=>?@['' @ [CHR 0x5C] @ '']^_`{|}~''"

definition py_translate_delete :: "string \<Rightarrow> string \<Rightarrow> string" where
  \<comment> \<open>\<open>s.translate(str.maketrans('', '', deleted))\<close>\<close>
  "py_translate_delete deleted s = filter (\<lambda>c. c \<notin> set deleted) s"


section \<open>song\_analysis\_storage.py\<close>

type_synonym lyric_table = "(string \<times> string) list"

record storage =
  song_data :: "(string \<times> lyric_table) list"
  current_song_title :: "string option"

text \<open>
  A Python \<open>dict\<close> is an association list with distinct keys in insertion order:
  \<open>d.get(k)\<close> is \<^const>\<open>map_of\<close>, \<open>d[k] = v\<close> is \<^const>\<open>AList.update\<close>, and an empty
  \<open>dict\<close> is falsy.
\<close>

record analysis_data =
  lyric :: "string option"
  sentence :: "string option"

definition init_storage :: storage where
  "init_storage = \<lparr>song_data = [], current_song_title = None\<rparr>"

definition normalize_lyric :: "string \<Rightarrow> string" where
  "normalize_lyric lyric_text =
     (if lyric_text = [] then []
      else let punctuation_to_remove = filter (\<lambda>c. c \<noteq> CHR 0x27) punctuation;
               normalized = py_translate_delete punctuation_to_remove lyric_text;
               normalized = py_strip (py_lower normalized)
           in py_join '' '' (py_split_ws normalized))"

definition start_new_song :: "string \<Rightarrow> storage \<Rightarrow> storage" where
  "start_new_song song_title s =
     (if song_title = [] then s
      else s\<lparr>current_song_title := Some song_title,
             song_data := AList.update song_title [] (song_data s)\<rparr>)"

definition falsy :: "string option \<Rightarrow> bool" where
  \<comment> \<open>\<open>not x\<close> for a value that is \<open>None\<close> or a \<open>str\<close>\<close>
  "falsy x = (x = None \<or> x = Some [])"

definition add_analysis_line :: "analysis_data \<Rightarrow> storage \<Rightarrow> storage" where
  "add_analysis_line d s =
     (if falsy (lyric d) \<or> falsy (sentence d) then s
      else let normalized_lyric = normalize_lyric (the (lyric d))
           in if normalized_lyric = [] then s
              else case current_song_title s of
                     None \<Rightarrow> s
                   | Some title \<Rightarrow>
                       let table = (case map_of (song_data s) title of
                                      None \<Rightarrow> [] | Some t \<Rightarrow> t)
                       in s\<lparr>song_data :=
                             AList.update title
                               (AList.update normalized_lyric (the (sentence d)) table)
                               (song_data s)\<rparr>)"

definition find_analysis_by_lyric :: "storage \<Rightarrow> string \<Rightarrow> string \<Rightarrow> string option" where
  "find_analysis_by_lyric s song_title current_lyric_text =
     (if song_title = [] \<or> current_lyric_text = [] then None
      else let normalized_lookup = normalize_lyric current_lyric_text
           in if normalized_lookup = [] then None
              else case map_of (song_data s) song_title of
                     None \<Rightarrow> None
                   | Some song_analysis_dict \<Rightarrow>
                       if song_analysis_dict = [] then None
                       else map_of song_analysis_dict normalized_lookup)"

definition get_analysis_dict_for_song :: "storage \<Rightarrow> string \<Rightarrow> lyric_table option" where
  "get_analysis_dict_for_song s song_title = map_of (song_data s) song_title"

definition get_current_song_title :: "storage \<Rightarrow> string option" where
  "get_current_song_title s = current_song_title s"

definition get_all_stored_songs :: "storage \<Rightarrow> string list" where
  "get_all_stored_songs s = map fst (song_data s)"


datatype storage_op = StartNewSong string | AddAnalysisLine analysis_data

fun apply_op :: "storage_op \<Rightarrow> storage \<Rightarrow> storage" where
  "apply_op (StartNewSong title) s = start_new_song title s"
| "apply_op (AddAnalysisLine d) s = add_analysis_line d s"

definition run_ops :: "storage_op list \<Rightarrow> storage" where
  \<comment> \<open>the store after a sequence of calls on a fresh \<open>SongAnalysisStorage()\<close>\<close>
  "run_ops ops = fold apply_op ops init_storage"




section \<open>llm\_analysis.py: the streaming parser\<close>

fun py_in :: "string \<Rightarrow> string \<Rightarrow> bool" where
  \<comment> \<open>\<open>sub in s\<close>\<close>
  "py_in sub [] = (sub = [])"
| "py_in sub (c # cs) = (prefix sub (c # cs) \<or> py_in sub cs)"

fun split_first :: "string \<Rightarrow> string \<Rightarrow> (string \<times> string) option" where
  \<comment> \<open>\<open>s.split(sep, 1)\<close> where \<open>sep\<close> occurs in \<open>s\<close>: the text before the first
      occurrence and the text after it; \<open>None\<close> where \<open>sep\<close> does not occur\<close>
  "split_first sep [] = (if sep = [] then Some ([], []) else None)"
| "split_first sep (c # cs) =
     (if prefix sep (c # cs) then Some ([], drop (length sep) (c # cs))
      else map_option (\<lambda>(a, b). (c # a, b)) (split_first sep cs))"

fun py_split_char :: "char \<Rightarrow> string \<Rightarrow> string list" where
  \<comment> \<open>\<open>s.split(sep)\<close> for a separator of one character\<close>
  "py_split_char sep [] = [[]]"
| "py_split_char sep (c # cs) =
     (if c = sep then [] # py_split_char sep cs
      else (case py_split_char sep cs of
              [] \<Rightarrow> [[c]]
            | w # ws \<Rightarrow> (c # w) # ws))"

definition END_MARKER :: string where
  "END_MARKER = ''<<END>>''"

definition LYRIC_PREFIX :: string where
  "LYRIC_PREFIX = ''LYRIC:''"

definition SENTENCE_PREFIX :: string where
  "SENTENCE_PREFIX = ''SENTENCE:''"

definition parse_line :: "string \<Rightarrow> analysis_data \<Rightarrow> analysis_data" where
  \<comment> \<open>the body of the loop over the lines of a section\<close>
  "parse_line line0 result =
     (let line = py_strip line0
      in if prefix LYRIC_PREFIX line
         then result\<lparr>lyric := Some (py_strip (drop (length LYRIC_PREFIX) line))\<rparr>
         else if prefix SENTENCE_PREFIX line
         then result\<lparr>sentence := Some (py_strip (drop (length SENTENCE_PREFIX) line))\<rparr>
         else result)"

definition parse_section :: "string \<Rightarrow> analysis_data option" where
  "parse_section section_text =
     (let section = py_strip section_text
      in if section = [] then None
         else let lines = py_split_char (CHR 0x0A) section;
                  result = fold parse_line lines \<lparr>lyric = None, sentence = None\<rparr>
              in if \<not> falsy (lyric result) \<and> \<not> falsy (sentence result)
                 then Some result else None)"

definition emit_section :: "string \<Rightarrow> analysis_data list" where
  \<comment> \<open>the records handed to \<open>storage_callback\<close> for one stripped candidate\<close>
  "emit_section section =
     (if section = [] then []
      else case parse_section section of None \<Rightarrow> [] | Some parsed_data \<Rightarrow> [parsed_data])"

function while_end :: "string \<Rightarrow> analysis_data list \<Rightarrow> string \<times> analysis_data list" where
  \<comment> \<open>\<open>while "<<END>>" in buffer\<close>, on the buffer and the records emitted so far\<close>
  "while_end buffer out =
     (if py_in END_MARKER buffer
      then (case split_first END_MARKER buffer of
              None \<Rightarrow> (buffer, out)
            | Some (part0, part1) \<Rightarrow> while_end part1 (out @ emit_section (py_strip part0)))
      else (buffer, out))"
  by pat_completeness auto
termination
proof (relation "measure (\<lambda>(buffer, out). length buffer)")
  show "wf (measure (\<lambda>(buffer, out). length buffer))"
    by simp
next
  fix buffer :: string and out :: "analysis_data list" and x2 part0 part1
  assume "split_first END_MARKER buffer = Some x2" and "(part0, part1) = x2"
  then have found: "split_first END_MARKER buffer = Some (part0, part1)"
    by simp
  have decomp: "split_first sep s = Some (a, b) \<Longrightarrow> s = a @ sep @ b" for sep s a b
  proof (induction s arbitrary: a)
    case Nil
    then show ?case by (simp split: if_splits)
  next
    case (Cons c cs)
    show ?case
    proof (cases "prefix sep (c # cs)")
      case True
      then show ?thesis
        using Cons.prems by (auto simp: prefix_def)
    next
      case False
      then obtain a' where "split_first sep cs = Some (a', b)" and "a = c # a'"
        using Cons.prems by auto
      then show ?thesis
        using Cons.IH by simp
    qed
  qed
  have "length part1 < length buffer"
    using decomp [OF found] by (simp add: END_MARKER_def)
  then show "((part1, out @ emit_section (py_strip part0)), buffer, out)
             \<in> measure (\<lambda>(buffer, out). length buffer)"
    by simp
qed

declare while_end.simps [simp del]

type_synonym chunk = "string list option"

definition chunk_text :: "chunk \<Rightarrow> string" where
  \<comment> \<open>\<open>"".join(part.text for part in chunk.parts)\<close>; a chunk whose parts cannot be read
      (\<open>None\<close>) gives the empty text\<close>
  "chunk_text c = (case c of None \<Rightarrow> [] | Some parts \<Rightarrow> concat parts)"

fun stream_loop :: "chunk list \<Rightarrow> string \<Rightarrow> analysis_data list \<Rightarrow> string \<times> analysis_data list" where
  \<comment> \<open>\<open>for chunk in chunk_stream\<close>\<close>
  "stream_loop [] buffer out = (buffer, out)"
| "stream_loop (c # cs) buffer out =
     (case while_end (buffer @ chunk_text c) out of
        (buffer', out') \<Rightarrow> stream_loop cs buffer' out')"

definition remaining_buffer :: "string \<Rightarrow> analysis_data list" where
  \<comment> \<open>the leftover buffer once the stream has ended\<close>
  "remaining_buffer buffer =
     (let remaining_section = py_strip buffer
      in if remaining_section \<noteq> []
            \<and> (py_in LYRIC_PREFIX remaining_section \<or> py_in SENTENCE_PREFIX remaining_section)
         then (case parse_section remaining_section of
                 None \<Rightarrow> [] | Some parsed_data \<Rightarrow> [parsed_data])
         else [])"

definition process_stream :: "chunk list \<Rightarrow> analysis_data list" where
  \<comment> \<open>the records passed to \<open>storage_callback\<close>, in call order\<close>
  "process_stream chunk_stream =
     (case stream_loop chunk_stream [] [] of
        (buffer, out) \<Rightarrow> out @ remaining_buffer buffer)"

definition total_items_processed :: "chunk list \<Rightarrow> nat" where
  \<comment> \<open>the counter is incremented once for each record passed on\<close>
  "total_items_processed chunk_stream = length (process_stream chunk_stream)"

definition candidate_lines :: "string \<Rightarrow> string list" where
  \<comment> \<open>the stripped lines of a candidate, as \<open>parse_section\<close> reads them\<close>
  "candidate_lines sec = map py_strip (py_split_char (CHR 0x0A) (py_strip sec))"

definition lacks_field :: "string \<Rightarrow> string \<Rightarrow> bool" where
  \<comment> \<open>no line of the candidate carries a non-empty text after the prefix\<close>
  "lacks_field pre sec =
     (\<forall>line \<in> set (candidate_lines sec).
        prefix pre line \<longrightarrow> py_strip (drop (length pre) line) = [])"


section \<open>llm\_analysis.py: the retrying analysis task\<close>















section \<open>image\_searcher.py\<close>

text \<open>
  A NumPy array of shape \<open>(N, D)\<close> is the list of its \<open>N\<close> rows together with \<open>D\<close>; its
  entries are modelled as real numbers, so rounding and NaN are outside the model.
\<close>

record image_searcher =
  image_embeddings :: "real list list"
  embedding_dim :: nat
  image_paths :: "string list"
  normalized_image_embeddings :: "real list list"

datatype 'a artifact = Missing | Unreadable | Contents 'a

datatype load_error = FileNotFoundError | LoadFailed

datatype log_entry = Warning_mismatch

record loaded_data =
  loaded_embeddings :: "real list list"
  loaded_dim :: nat
  loaded_paths :: "string list"

definition load_data ::
  "(real list list \<times> nat) artifact \<Rightarrow> string list artifact \<Rightarrow> load_error + (loaded_data \<times> log_entry list)" where
  \<comment> \<open>\<open>_load_data\<close>: the two artifacts as read, and the warnings logged on the way\<close>
  "load_data embeddings_file paths_file =
     (if embeddings_file = Missing then Inl FileNotFoundError
      else if paths_file = Missing then Inl FileNotFoundError
      else case embeddings_file of
             Contents (rows, d) \<Rightarrow>
               (case paths_file of
                  Contents paths \<Rightarrow>
                    Inr (\<lparr>loaded_embeddings = rows, loaded_dim = d, loaded_paths = paths\<rparr>,
                         if length paths \<noteq> length rows then [Warning_mismatch] else [])
                | _ \<Rightarrow> Inl LoadFailed)
           | _ \<Rightarrow> Inl LoadFailed)"

definition EPSILON :: real where
  "EPSILON = 1 / 10 ^ 8"

definition l2_norm :: "real list \<Rightarrow> real" where
  "l2_norm v = sqrt (sum_list (map (\<lambda>x. x * x) v))"

definition normalize_row :: "real list \<Rightarrow> real list" where
  \<comment> \<open>\<open>v / (norm(v) + 1e-8)\<close>\<close>
  "normalize_row v = map (\<lambda>x. x / (l2_norm v + EPSILON)) v"

definition normalize_embeddings :: "loaded_data \<Rightarrow> image_searcher" where
  "normalize_embeddings l =
     \<lparr>image_embeddings = loaded_embeddings l, embedding_dim = loaded_dim l,
      image_paths = loaded_paths l,
      normalized_image_embeddings = map normalize_row (loaded_embeddings l)\<rparr>"

definition init_searcher ::
  "(real list list \<times> nat) artifact \<Rightarrow> string list artifact \<Rightarrow> load_error + (image_searcher \<times> log_entry list)" where
  \<comment> \<open>\<open>ImageSearcher.__init__\<close>\<close>
  "init_searcher embeddings_file paths_file =
     (case load_data embeddings_file paths_file of
        Inl e \<Rightarrow> Inl e
      | Inr (l, logs) \<Rightarrow> Inr (normalize_embeddings l, logs))"

definition dot :: "real list \<Rightarrow> real list \<Rightarrow> real" where
  "dot a b = sum_list (map2 (*) a b)"

text \<open>
  \<open>np.argsort\<close> is NumPy's, not this repository's: the searcher takes it as the parameter
  \<open>np_argsort\<close>. NumPy documents that it returns the indices that sort the array in
  ascending order; the default sort kind promises no order among equal values.
\<close>

definition is_argsort :: "real list \<Rightarrow> nat list \<Rightarrow> bool" where
  \<comment> \<open>\<open>order\<close> lists every index of \<open>xs\<close> once, in ascending order of the values\<close>
  "is_argsort xs order =
     (length order = length xs \<and> set order = {0..<length xs}
      \<and> sorted (map (\<lambda>i. xs ! i) order))"

definition argsort_insertion :: "real list \<Rightarrow> nat list" where
  \<comment> \<open>one sort that meets the contract: insertion sort on the indices\<close>
  "argsort_insertion xs = sort_key (\<lambda>i. xs ! i) [0..<length xs]"

definition py_slice_from :: "int \<Rightarrow> 'a list \<Rightarrow> 'a list" where
  \<comment> \<open>\<open>xs[start:]\<close>: a negative \<open>start\<close> counts from the end\<close>
  "py_slice_from start xs =
     (if start < 0 then drop (nat (int (length xs) + start)) xs else drop (nat start) xs)"

definition top_k_indices :: "(real list \<Rightarrow> nat list) \<Rightarrow> real list \<Rightarrow> int \<Rightarrow> nat list" where
  \<comment> \<open>\<open>np.argsort(similarities)[-top_k:][::-1]\<close>\<close>
  "top_k_indices np_argsort similarities top_k =
     rev (py_slice_from (- top_k) (np_argsort similarities))"

definition similarities_of :: "image_searcher \<Rightarrow> real list \<Rightarrow> real list" where
  \<comment> \<open>\<open>np.dot(normalized_text_embedding, self.normalized_image_embeddings.T)[0]\<close>\<close>
  "similarities_of s text_embedding =
     map (dot (normalize_row text_embedding)) (normalized_image_embeddings s)"

definition search ::
  "(real list \<Rightarrow> nat list) \<Rightarrow> image_searcher \<Rightarrow> real list option \<Rightarrow> int
   \<Rightarrow> (string \<times> real) list option" where
  \<comment> \<open>\<open>None\<close> is the \<open>None\<close> the source returns; a query whose length is not \<open>D\<close> makes
      \<open>np.dot\<close> raise, which the \<open>except\<close> clause turns into \<open>None\<close>\<close>
  "search np_argsort s text_embedding top_k =
     (case text_embedding of
        None \<Rightarrow> None
      | Some q \<Rightarrow>
          if length q \<noteq> embedding_dim s then None
          else let similarities = similarities_of s q;
                   indices = top_k_indices np_argsort similarities top_k
               in Some (map (\<lambda>i. (image_paths s ! i, similarities ! i))
                          (filter (\<lambda>i. i < length (image_paths s)) indices)))"

section \<open>Properties of the analysis store\<close>

lemma filter_update_other:
  "filter (\<lambda>p. fst p \<noteq> k) (AList.update k v al) = filter (\<lambda>p. fst p \<noteq> k) al"
  by (induction al) auto

lemma normalize_lyric_Nil: "normalize_lyric [] = []"
  by (simp add: normalize_lyric_def)

lemma current_song_title_start:
  "current_song_title (start_new_song T s) = (if T = [] then current_song_title s else Some T)"
  by (simp add: start_new_song_def)

lemma current_song_title_add:
  "current_song_title (add_analysis_line d s) = current_song_title s"
  by (simp add: add_analysis_line_def Let_def split: option.splits)

lemma fold_apply_op_current:
  "current_song_title s \<noteq> Some [] \<Longrightarrow> current_song_title (fold apply_op ops s) \<noteq> Some []"
proof (induction ops arbitrary: s)
  case Nil
  then show ?case by simp
next
  case (Cons x ops)
  have "current_song_title (apply_op x s) \<noteq> Some []"
    using Cons.prems
    by (cases x) (simp_all add: current_song_title_start current_song_title_add)
  then show ?case
    using Cons.IH by simp
qed

lemma run_ops_current_nonempty: "current_song_title (run_ops ops) \<noteq> Some []"
  unfolding run_ops_def
  by (rule fold_apply_op_current) (simp add: init_storage_def)

lemma find_start_other:
  assumes "B \<noteq> []" and "A \<noteq> B"
  shows "find_analysis_by_lyric (start_new_song B s) A l = find_analysis_by_lyric s A l"
  using assms by (simp add: find_analysis_by_lyric_def start_new_song_def update_conv' Let_def)

lemma find_start_same:
  "B \<noteq> [] \<Longrightarrow> find_analysis_by_lyric (start_new_song B s) B l = None"
  by (simp add: find_analysis_by_lyric_def start_new_song_def update_conv' Let_def)

text \<open>
  C1 as stated fails: starting song \<open>B\<close> leaves the table of song \<open>A\<close> in the store,
  and a lookup under \<open>A\<close> still finds its lines.
\<close>

theorem start_new_song_replacement_counterexample:
  "find_analysis_by_lyric
     (start_new_song ''B''
        (add_analysis_line \<lparr>lyric = Some ''x'', sentence = Some ''y''\<rparr>
           (start_new_song ''A'' init_storage)))
     ''A'' ''x'' \<noteq> None"
  by code_simp

text \<open>
  C1, amended: for song ids \<open>A \<noteq> B\<close> with \<open>B\<close> non-empty, after \<open>start_new_song A\<close>, any
  number of \<open>add_analysis_line\<close> calls and then \<open>start_new_song B\<close>, a lookup under \<open>A\<close>
  returns exactly what it returned just before \<open>B\<close> started (the table of \<open>A\<close> is kept);
  it is the lookup under the started song \<open>B\<close> that returns absent for every line.
\<close>

theorem start_new_song_keeps_previous_song:
  assumes "B \<noteq> []" and "A \<noteq> B"
    and "s1 = fold add_analysis_line ds (start_new_song A s0)"
  shows "find_analysis_by_lyric (start_new_song B s1) A l = find_analysis_by_lyric s1 A l
       \<and> find_analysis_by_lyric (start_new_song B s1) B l = None"
  using assms(1,2) by (simp add: find_start_other find_start_same)

theorem start_new_song_keeps_previous_song_witness:
  "''B'' \<noteq> [] \<and> ''A'' \<noteq> ''B''
   \<and> find_analysis_by_lyric
        (start_new_song ''B''
           (fold add_analysis_line [\<lparr>lyric = Some ''x'', sentence = Some ''y''\<rparr>]
              (start_new_song ''A'' init_storage)))
        ''A'' ''x'' = Some ''y''
   \<and> find_analysis_by_lyric
        (start_new_song ''B''
           (fold add_analysis_line [\<lparr>lyric = Some ''x'', sentence = Some ''y''\<rparr>]
              (start_new_song ''A'' init_storage)))
        ''B'' ''x'' = None"
proof -
  have a: "''B'' \<noteq> []" and b: "''A'' \<noteq> ''B''"
    by simp_all
  have c: "find_analysis_by_lyric
        (fold add_analysis_line [\<lparr>lyric = Some ''x'', sentence = Some ''y''\<rparr>]
           (start_new_song ''A'' init_storage)) ''A'' ''x'' = Some ''y''"
    by code_simp
  show ?thesis
    using start_new_song_keeps_previous_song [OF a b refl, of
        "[\<lparr>lyric = Some ''x'', sentence = Some ''y''\<rparr>]" init_storage "''x''"] a b c
    by simp
qed

lemma find_after_add:
  assumes cur: "current_song_title s = Some t" and t: "t \<noteq> []"
    and n: "normalize_lyric L \<noteq> []" and S: "S \<noteq> []"
  shows "find_analysis_by_lyric
           (add_analysis_line \<lparr>lyric = Some L, sentence = Some S\<rparr> s) t Q
         = (if normalize_lyric Q = normalize_lyric L then Some S
            else find_analysis_by_lyric s t Q)"
proof -
  have L: "L \<noteq> []"
    using n normalize_lyric_Nil by auto
  define table where
    "table = (case map_of (song_data s) t of None \<Rightarrow> [] | Some d \<Rightarrow> d)"
  define table' where "table' = AList.update (normalize_lyric L) S table"
  have add: "add_analysis_line \<lparr>lyric = Some L, sentence = Some S\<rparr> s
             = s\<lparr>song_data := AList.update t table' (song_data s)\<rparr>"
    using cur n S L
    by (simp add: add_analysis_line_def falsy_def Let_def table_def table'_def)
  have tab: "map_of (AList.update t table' (song_data s)) t = Some table'"
    by (simp add: update_conv')
  have ne: "table' \<noteq> []"
    by (simp add: table'_def)
  show ?thesis
  proof (cases "normalize_lyric Q = normalize_lyric L")
    case True
    then have Q: "Q \<noteq> []"
      using n normalize_lyric_Nil by auto
    have "map_of table' (normalize_lyric Q) = Some S"
      by (simp add: table'_def update_conv' True)
    then show ?thesis
      using True Q t n ne tab
      by (simp add: add find_analysis_by_lyric_def Let_def)
  next
    case False
    have other: "map_of table' (normalize_lyric Q) = map_of table (normalize_lyric Q)"
      using False by (simp add: table'_def update_conv')
    have "table = [] \<Longrightarrow> map_of table (normalize_lyric Q) = None"
      by simp
    then show ?thesis
      using False ne tab other
      by (auto simp: add find_analysis_by_lyric_def Let_def table_def split: option.splits)
  qed
qed

text \<open>
  C2 as stated fails: a non-empty lyric made of punctuation only normalizes to the
  empty string, \<open>add_analysis_line\<close> ignores it, and the lookup returns absent.
\<close>

theorem add_find_roundtrip_counterexample:
  "find_analysis_by_lyric
     (add_analysis_line \<lparr>lyric = Some ''!'', sentence = Some ''s''\<rparr>
        (start_new_song ''A'' init_storage))
     ''A'' ''!'' \<noteq> Some ''s''"
  by code_simp

text \<open>
  C2, amended: in every store reached from a fresh one by \<open>start_new_song\<close> and
  \<open>add_analysis_line\<close> calls in which some song \<open>t\<close> is current, for every lyric \<open>L\<close>
  whose normalization is non-empty and every non-empty sentence \<open>S\<close>, adding
  \<open>{lyric: L, sentence: S}\<close> and then looking \<open>L\<close> up under \<open>t\<close> returns \<open>S\<close>.
\<close>

theorem add_find_roundtrip:
  assumes "s = run_ops ops" and "current_song_title s = Some t"
    and "normalize_lyric L \<noteq> []" and "S \<noteq> []"
  shows "find_analysis_by_lyric
           (add_analysis_line \<lparr>lyric = Some L, sentence = Some S\<rparr> s) t L = Some S"
proof -
  have "t \<noteq> []"
    using assms(1,2) run_ops_current_nonempty [of ops] by auto
  then show ?thesis
    using find_after_add [OF assms(2) _ assms(3,4), of L] by simp
qed

theorem add_find_roundtrip_witness:
  "current_song_title (run_ops [StartNewSong ''A'']) = Some ''A''
   \<and> normalize_lyric ''Hello, World!'' \<noteq> [] \<and> ''sunny field'' \<noteq> []
   \<and> find_analysis_by_lyric
        (add_analysis_line \<lparr>lyric = Some ''Hello, World!'', sentence = Some ''sunny field''\<rparr>
           (run_ops [StartNewSong ''A'']))
        ''A'' ''Hello, World!'' = Some ''sunny field''"
proof -
  have a: "current_song_title (run_ops [StartNewSong ''A'']) = Some ''A''"
    by code_simp
  have b: "normalize_lyric ''Hello, World!'' \<noteq> []"
    by code_simp
  have c: "''sunny field'' \<noteq> []"
    by simp
  show ?thesis
    using add_find_roundtrip [OF refl a b c] a b c by simp
qed

lemma add_analysis_line_normalized:
  assumes "normalize_lyric L1 = normalize_lyric L2"
  shows "add_analysis_line \<lparr>lyric = Some L1, sentence = S\<rparr> s
       = add_analysis_line \<lparr>lyric = Some L2, sentence = S\<rparr> s"
proof -
  have "L1 = [] \<Longrightarrow> normalize_lyric L2 = []" and "L2 = [] \<Longrightarrow> normalize_lyric L1 = []"
    using assms normalize_lyric_Nil by auto
  then show ?thesis
    using assms by (auto simp: add_analysis_line_def falsy_def Let_def split: option.splits)
qed

lemma find_analysis_normalized:
  assumes "normalize_lyric Q1 = normalize_lyric Q2"
  shows "find_analysis_by_lyric s t Q1 = find_analysis_by_lyric s t Q2"
proof -
  have "Q1 = [] \<Longrightarrow> normalize_lyric Q2 = []" and "Q2 = [] \<Longrightarrow> normalize_lyric Q1 = []"
    using assms normalize_lyric_Nil by auto
  then show ?thesis
    using assms by (auto simp: find_analysis_by_lyric_def Let_def)
qed

text \<open>
  C3: line texts that are equal after \<open>_normalize_lyric\<close> (lowercase, punctuation other
  than the apostrophe removed, whitespace runs collapsed to one space) are
  interchangeable: whichever variant \<open>add_analysis_line\<close> stored and whichever variant
  \<open>find_analysis_by_lyric\<close> is asked for, the lookup returns the same sentence.
\<close>

theorem lookup_normalization_invariant:
  assumes "normalize_lyric L1 = normalize_lyric L2"
    and "normalize_lyric Q1 = normalize_lyric Q2"
  shows "find_analysis_by_lyric (add_analysis_line \<lparr>lyric = Some L1, sentence = S\<rparr> s) t Q1
       = find_analysis_by_lyric (add_analysis_line \<lparr>lyric = Some L2, sentence = S\<rparr> s) t Q2"
  using add_analysis_line_normalized [OF assms(1)] find_analysis_normalized [OF assms(2)]
  by simp

theorem lookup_normalization_invariant_witness:
  "normalize_lyric ''Don't  STOP, believing!'' = normalize_lyric ''don't stop believing''
   \<and> normalize_lyric '' DON'T stop   Believing.'' = normalize_lyric ''don't stop believing''
   \<and> find_analysis_by_lyric
        (add_analysis_line \<lparr>lyric = Some ''Don't  STOP, believing!'', sentence = Some ''night train''\<rparr>
           (start_new_song ''A'' init_storage))
        ''A'' '' DON'T stop   Believing.''
     = find_analysis_by_lyric
        (add_analysis_line \<lparr>lyric = Some ''don't stop believing'', sentence = Some ''night train''\<rparr>
           (start_new_song ''A'' init_storage))
        ''A'' ''don't stop believing''
   \<and> find_analysis_by_lyric
        (add_analysis_line \<lparr>lyric = Some ''don't stop believing'', sentence = Some ''night train''\<rparr>
           (start_new_song ''A'' init_storage))
        ''A'' ''don't stop believing'' = Some ''night train''"
proof -
  have a: "normalize_lyric ''Don't  STOP, believing!'' = normalize_lyric ''don't stop believing''"
    by code_simp
  have b: "normalize_lyric '' DON'T stop   Believing.'' = normalize_lyric ''don't stop believing''"
    by code_simp
  have c: "find_analysis_by_lyric
        (add_analysis_line \<lparr>lyric = Some ''don't stop believing'', sentence = Some ''night train''\<rparr>
           (start_new_song ''A'' init_storage))
        ''A'' ''don't stop believing'' = Some ''night train''"
    by code_simp
  show ?thesis
    using lookup_normalization_invariant [OF a b, of "Some ''night train''"
        "start_new_song ''A'' init_storage" "''A''"] a b c
    by simp
qed

text \<open>
  C10: for a non-empty title \<open>T\<close>, \<open>start_new_song T\<close> sets the current-song pointer to
  \<open>T\<close> and gives \<open>T\<close> an empty table; the entry of every other song id, its table and
  its place among the other entries, is as before, and no song id leaves the store.
\<close>

theorem start_new_song_frame:
  assumes "T \<noteq> []"
  shows "current_song_title (start_new_song T s) = Some T
       \<and> get_analysis_dict_for_song (start_new_song T s) T = Some []
       \<and> (\<forall>U. U \<noteq> T \<longrightarrow>
             get_analysis_dict_for_song (start_new_song T s) U
             = get_analysis_dict_for_song s U)
       \<and> filter (\<lambda>p. fst p \<noteq> T) (song_data (start_new_song T s))
         = filter (\<lambda>p. fst p \<noteq> T) (song_data s)
       \<and> set (get_all_stored_songs (start_new_song T s))
         = insert T (set (get_all_stored_songs s))"
  using assms
  by (auto simp: start_new_song_def get_analysis_dict_for_song_def get_all_stored_songs_def
      update_conv' filter_update_other update_keys)

theorem start_new_song_frame_witness:
  "''B'' \<noteq> []
   \<and> get_analysis_dict_for_song
       (start_new_song ''B''
          (add_analysis_line \<lparr>lyric = Some ''x'', sentence = Some ''y''\<rparr>
             (start_new_song ''A'' init_storage))) ''A'' = Some [(''x'', ''y'')]
   \<and> current_song_title
       (start_new_song ''B''
          (add_analysis_line \<lparr>lyric = Some ''x'', sentence = Some ''y''\<rparr>
             (start_new_song ''A'' init_storage))) = Some ''B''"
proof -
  have a: "''B'' \<noteq> []" and b: "''A'' \<noteq> ''B''"
    by simp_all
  have c: "get_analysis_dict_for_song
             (add_analysis_line \<lparr>lyric = Some ''x'', sentence = Some ''y''\<rparr>
                (start_new_song ''A'' init_storage)) ''A'' = Some [(''x'', ''y'')]"
    by code_simp
  show ?thesis
    using start_new_song_frame [OF a, of
        "add_analysis_line \<lparr>lyric = Some ''x'', sentence = Some ''y''\<rparr>
           (start_new_song ''A'' init_storage)"] a b c
    by simp
qed


section \<open>Properties of the streaming parser\<close>

lemma split_first_decomp:
  "split_first sep s = Some (a, b) \<Longrightarrow> s = a @ sep @ b"
proof (induction s arbitrary: a)
  case Nil
  then show ?case by (simp split: if_splits)
next
  case (Cons c cs)
  show ?case
  proof (cases "prefix sep (c # cs)")
    case True
    then show ?thesis
      using Cons.prems by (auto simp: prefix_def)
  next
    case False
    then obtain a' where "split_first sep cs = Some (a', b)" and "a = c # a'"
      using Cons.prems by auto
    then show ?thesis
      using Cons.IH by simp
  qed
qed

lemma split_first_shorter:
  "split_first END_MARKER s = Some (a, b) \<Longrightarrow> length b < length s"
  using split_first_decomp [of END_MARKER s a b] by (simp add: END_MARKER_def)

lemma split_first_None_iff: "split_first sep s = None \<longleftrightarrow> \<not> py_in sep s"
  by (induction s) auto

lemma split_first_append:
  assumes "split_first sep a = Some (p, q)"
  shows "split_first sep (a @ b) = Some (p, q @ b)"
  using assms
proof (induction a arbitrary: p)
  case Nil
  then show ?case by (cases b) (auto split: if_splits)
next
  case (Cons c cs)
  show ?case
  proof (cases "prefix sep (c # cs)")
    case True
    then have pre: "prefix sep (c # (cs @ b))"
      using prefix_prefix [of sep "c # cs" b] by simp
    have "length sep \<le> length (c # cs)"
      using True by (rule prefix_length_le)
    then have dr: "drop (length sep) (c # (cs @ b)) = drop (length sep) (c # cs) @ b"
      by (cases sep) simp_all
    have "split_first sep (c # (cs @ b)) = Some ([], drop (length sep) (c # (cs @ b)))"
      using pre by simp
    moreover have "p = []" and "q = drop (length sep) (c # cs)"
      using True Cons.prems by auto
    ultimately show ?thesis
      using dr by simp
  next
    case False
    then obtain p' where rec: "split_first sep cs = Some (p', q)" and p: "p = c # p'"
      using Cons.prems by auto
    have "length sep \<le> length cs"
      using split_first_decomp [OF rec] by simp
    then have "\<not> prefix sep ((c # cs) @ b)"
      using False unfolding prefix_append by auto
    then show ?thesis
      using Cons.IH [OF rec] p by simp
  qed
qed

lemma py_in_append: "py_in sep a \<Longrightarrow> py_in sep (a @ b)"
  using split_first_append [of sep a _ _ b] split_first_None_iff [of sep a]
    split_first_None_iff [of sep "a @ b"]
  by (cases "split_first sep a") auto

lemma while_end_append:
  "while_end (a @ b) out = (case while_end a out of (a', out') \<Rightarrow> while_end (a' @ b) out')"
proof (induction a out rule: while_end.induct)
  case (1 buffer out)
  show ?case
  proof (cases "split_first END_MARKER buffer")
    case None
    then have "\<not> py_in END_MARKER buffer"
      by (simp add: split_first_None_iff)
    then show ?thesis by (simp add: while_end.simps)
  next
    case (Some pq)
    then obtain p q where pq: "split_first END_MARKER buffer = Some (p, q)"
      by (cases pq) auto
    then have inb: "py_in END_MARKER buffer"
      using split_first_None_iff [of END_MARKER buffer] by simp
    have inab: "py_in END_MARKER (buffer @ b)"
      using inb by (rule py_in_append)
    have sp: "split_first END_MARKER (buffer @ b) = Some (p, q @ b)"
      using pq by (rule split_first_append)
    have "while_end (buffer @ b) out = while_end (q @ b) (out @ emit_section (py_strip p))"
      using inab sp by (subst while_end.simps) simp
    also have "\<dots> = (case while_end q (out @ emit_section (py_strip p)) of
                        (a', out') \<Rightarrow> while_end (a' @ b) out')"
      using "1.IH" [OF inb pq refl] by simp
    also have "while_end q (out @ emit_section (py_strip p)) = while_end buffer out"
      using inb pq by (subst (2) while_end.simps) simp
    finally show ?thesis .
  qed
qed

lemma while_end_no_marker:
  "while_end buffer out = (b, out') \<Longrightarrow> \<not> py_in END_MARKER b"
proof (induction buffer out rule: while_end.induct)
  case (1 buffer out)
  show ?case
  proof (cases "py_in END_MARKER buffer")
    case False
    then show ?thesis using "1.prems" by (simp add: while_end.simps)
  next
    case True
    then obtain p q where pq: "split_first END_MARKER buffer = Some (p, q)"
      using split_first_None_iff [of END_MARKER buffer] by (cases "split_first END_MARKER buffer") auto
    have "while_end q (out @ emit_section (py_strip p)) = (b, out')"
      using "1.prems" True pq by (subst (asm) while_end.simps) simp
    then show ?thesis
      using "1.IH" [OF True pq refl] by simp
  qed
qed

lemma stream_loop_concat:
  assumes "\<not> py_in END_MARKER buffer"
  shows "stream_loop cs buffer out = while_end (buffer @ concat (map chunk_text cs)) out"
  using assms
proof (induction cs arbitrary: buffer out)
  case Nil
  then show ?case by (simp add: while_end.simps)
next
  case (Cons c cs)
  obtain b1 o1 where w: "while_end (buffer @ chunk_text c) out = (b1, o1)"
    by (cases "while_end (buffer @ chunk_text c) out") auto
  have "\<not> py_in END_MARKER b1"
    using w by (rule while_end_no_marker)
  then have "stream_loop cs b1 o1 = while_end (b1 @ concat (map chunk_text cs)) o1"
    by (rule Cons.IH)
  moreover have "while_end ((buffer @ chunk_text c) @ concat (map chunk_text cs)) out
                 = while_end (b1 @ concat (map chunk_text cs)) o1"
    using while_end_append [of "buffer @ chunk_text c" "concat (map chunk_text cs)" out] w
    by simp
  ultimately show ?case
    using w by simp
qed

lemma process_stream_whole:
  "process_stream cs = process_stream [Some [concat (map chunk_text cs)]]"
proof -
  have "stream_loop cs [] [] = while_end (concat (map chunk_text cs)) []"
    using stream_loop_concat [of "[]" cs "[]"] by (simp add: END_MARKER_def)
  moreover have "stream_loop [Some [concat (map chunk_text cs)]] [] []
                 = while_end (concat (map chunk_text cs)) []"
    using stream_loop_concat [of "[]" "[Some [concat (map chunk_text cs)]]" "[]"]
    by (simp add: END_MARKER_def chunk_text_def)
  ultimately show ?thesis
    by (simp add: process_stream_def)
qed

lemma dropWhile_rev_prefix:
  assumes "dropWhile P t = t"
  shows "dropWhile P (rev (dropWhile P (rev t))) = rev (dropWhile P (rev t))"
  by (metis (no_types, lifting) Nil_is_rev_conv assms
    dropWhile_eq_Nil_conv dropWhile_eq_self_iff dropWhile_last hd_rev
    last_rev)

lemma py_strip_idem: "py_strip (py_strip s) = py_strip s"
proof -
  define t where "t = dropWhile py_isspace s"
  define u where "u = rev (dropWhile py_isspace (rev t))"
  have "dropWhile py_isspace t = t"
    by (simp add: t_def)
  then have front: "dropWhile py_isspace u = u"
    unfolding u_def by (rule dropWhile_rev_prefix)
  have rear: "dropWhile py_isspace (rev u) = rev u"
    by (simp add: u_def)
  have "py_strip s = u"
    by (simp add: py_strip_def t_def u_def)
  moreover have "py_strip u = u"
    by (simp add: py_strip_def front rear)
  ultimately show ?thesis
    by simp
qed

lemma marker_no_overlap:
  assumes "prefix ''<<END>>'' (xs @ ''<<END>>'' @ rest)" and "xs \<noteq> []"
  shows "prefix ''<<END>>'' xs"
proof -
  have step: "prefix (a # p) (ys @ zs) \<Longrightarrow> ys \<noteq> [] \<Longrightarrow> \<exists>ys'. ys = a # ys' \<and> prefix p (ys' @ zs)"
    for a :: char and p ys zs
    by (cases ys) auto
  from assms obtain x1 where 1: "xs = CHR ''<'' # x1" "prefix ''<END>>'' (x1 @ ''<<END>>'' @ rest)"
    using step by blast
  show ?thesis
  proof (cases "x1 = []")
    case True then show ?thesis using 1 by simp
  next
    case False
    then obtain x2 where 2: "x1 = CHR ''<'' # x2" "prefix ''END>>'' (x2 @ ''<<END>>'' @ rest)"
      using step 1 by blast
    show ?thesis
    proof (cases "x2 = []")
      case True then show ?thesis using 1 2 by simp
    next
      case False
      then obtain x3 where 3: "x2 = CHR ''E'' # x3" "prefix ''ND>>'' (x3 @ ''<<END>>'' @ rest)"
        using step 2 by blast
      show ?thesis
      proof (cases "x3 = []")
        case True then show ?thesis using 1 2 3 by simp
      next
        case False
        then obtain x4 where 4: "x3 = CHR ''N'' # x4" "prefix ''D>>'' (x4 @ ''<<END>>'' @ rest)"
          using step 3 by blast
        show ?thesis
        proof (cases "x4 = []")
          case True then show ?thesis using 1 2 3 4 by simp
        next
          case False
          then obtain x5 where 5: "x4 = CHR ''D'' # x5" "prefix ''>>'' (x5 @ ''<<END>>'' @ rest)"
            using step 4 by blast
          show ?thesis
          proof (cases "x5 = []")
            case True then show ?thesis using 1 2 3 4 5 by simp
          next
            case False
            then obtain x6 where 6: "x5 = CHR ''>'' # x6" "prefix ''>'' (x6 @ ''<<END>>'' @ rest)"
              using step 5 by blast
            show ?thesis
            proof (cases "x6 = []")
              case True then show ?thesis using 1 2 3 4 5 6 by simp
            next
              case False
              then obtain x7 where 7: "x6 = CHR ''>'' # x7"
                using step 6 by blast
              show ?thesis using 1 2 3 4 5 6 7 by simp
            qed
          qed
        qed
      qed
    qed
  qed
qed

lemma split_first_marker:
  assumes "\<not> py_in END_MARKER sec"
  shows "split_first END_MARKER (sec @ END_MARKER @ rest) = Some (sec, rest)"
  using assms
proof (induction sec)
  case Nil
  then show ?case by (simp add: END_MARKER_def)
next
  case (Cons c cs)
  have np: "\<not> prefix END_MARKER (c # cs)" and nin: "\<not> py_in END_MARKER cs"
    using Cons.prems by simp_all
  have "\<not> prefix END_MARKER ((c # cs) @ END_MARKER @ rest)"
    using np marker_no_overlap [of "c # cs" rest] by (auto simp: END_MARKER_def)
  then show ?case
    using Cons.IH [OF nin] by simp
qed

lemma while_end_candidate:
  assumes "\<not> py_in END_MARKER sec"
  shows "while_end (sec @ END_MARKER @ rest) out
         = while_end rest (out @ emit_section (py_strip sec))"
proof -
  have sp: "split_first END_MARKER (sec @ END_MARKER @ rest) = Some (sec, rest)"
    using assms by (rule split_first_marker)
  then have "py_in END_MARKER (sec @ END_MARKER @ rest)"
    using split_first_None_iff [of END_MARKER "sec @ END_MARKER @ rest"] by simp
  then show ?thesis
    using sp by (subst while_end.simps) simp
qed

lemma process_stream_candidate:
  assumes "\<not> py_in END_MARKER sec"
    and "concat (map chunk_text cs) = sec @ END_MARKER @ rest"
  shows "process_stream cs = emit_section (py_strip sec) @ process_stream [Some [rest]]"
proof -
  have acc: "while_end b (pre @ out) = (case while_end b out of (b', out') \<Rightarrow> (b', pre @ out'))"
    for b pre out
  proof (induction b out rule: while_end.induct)
    case (1 buffer out)
    show ?case
    proof (cases "split_first END_MARKER buffer")
      case None
      then have "\<not> py_in END_MARKER buffer"
        by (simp add: split_first_None_iff)
      then show ?thesis
        by (simp add: while_end.simps)
    next
      case (Some pq)
      then obtain p q where pq: "split_first END_MARKER buffer = Some (p, q)"
        by (cases pq) auto
      then have inb: "py_in END_MARKER buffer"
        using split_first_None_iff [of END_MARKER buffer] by simp
      show ?thesis
        using "1.IH" [OF inb pq refl] inb pq
        by (simp add: while_end.simps [of buffer])
    qed
  qed
  have "stream_loop cs [] [] = while_end (sec @ END_MARKER @ rest) []"
    using stream_loop_concat [of "[]" cs "[]"] assms(2) by (simp add: END_MARKER_def)
  also have "\<dots> = while_end rest (emit_section (py_strip sec) @ [])"
    using while_end_candidate [OF assms(1), of rest "[]"] by simp
  also have "\<dots> = (case while_end rest [] of
                       (b', out') \<Rightarrow> (b', emit_section (py_strip sec) @ out'))"
    by (rule acc)
  finally have left: "stream_loop cs [] []
      = (case while_end rest [] of (b', out') \<Rightarrow> (b', emit_section (py_strip sec) @ out'))" .
  have right: "stream_loop [Some [rest]] [] [] = while_end rest []"
    using stream_loop_concat [of "[]" "[Some [rest]]" "[]"]
    by (simp add: END_MARKER_def chunk_text_def)
  show ?thesis
    unfolding process_stream_def left right
    by (simp split: prod.splits)
qed

lemma fold_parse_line_lyric:
  assumes "falsy (lyric r)"
    and "\<forall>line \<in> set lines. prefix LYRIC_PREFIX (py_strip line) \<longrightarrow>
           py_strip (drop (length LYRIC_PREFIX) (py_strip line)) = []"
  shows "falsy (lyric (fold parse_line lines r))"
  using assms
proof (induction lines arbitrary: r)
  case Nil
  then show ?case by simp
next
  case (Cons l ls)
  have "falsy (lyric (parse_line l r))"
    using Cons.prems by (simp add: parse_line_def Let_def falsy_def)
  then show ?case
    using Cons.IH Cons.prems(2) by simp
qed

lemma fold_parse_line_sentence:
  assumes "falsy (sentence r)"
    and "\<forall>line \<in> set lines. prefix SENTENCE_PREFIX (py_strip line) \<longrightarrow>
           py_strip (drop (length SENTENCE_PREFIX) (py_strip line)) = []"
  shows "falsy (sentence (fold parse_line lines r))"
  using assms
proof (induction lines arbitrary: r)
  case Nil
  then show ?case by simp
next
  case (Cons l ls)
  have "falsy (sentence (parse_line l r))"
    using Cons.prems by (simp add: parse_line_def Let_def falsy_def)
  then show ?case
    using Cons.IH Cons.prems(2) by simp
qed

lemma emit_section_lacking:
  assumes "lacks_field LYRIC_PREFIX sec \<or> lacks_field SENTENCE_PREFIX sec"
  shows "emit_section (py_strip sec) = []"
proof -
  define lines where "lines = py_split_char (CHR 0x0A) (py_strip sec)"
  define r0 where "r0 = \<lparr>lyric = None, sentence = None\<rparr>"
  have r0: "falsy (lyric r0)" "falsy (sentence r0)"
    by (simp_all add: r0_def falsy_def)
  have "falsy (lyric (fold parse_line lines r0)) \<or> falsy (sentence (fold parse_line lines r0))"
  proof (rule disjE [OF assms])
    assume "lacks_field LYRIC_PREFIX sec"
    then have "falsy (lyric (fold parse_line lines r0))"
      using r0(1)
      by (intro fold_parse_line_lyric) (simp_all add: lacks_field_def candidate_lines_def lines_def)
    then show ?thesis ..
  next
    assume "lacks_field SENTENCE_PREFIX sec"
    then have "falsy (sentence (fold parse_line lines r0))"
      using r0(2)
      by (intro fold_parse_line_sentence) (simp_all add: lacks_field_def candidate_lines_def lines_def)
    then show ?thesis ..
  qed
  then have "parse_section (py_strip sec) = None"
    by (auto simp: parse_section_def py_strip_idem Let_def lines_def r0_def)
  then show ?thesis
    by (simp add: emit_section_def)
qed

text \<open>
  C6: the records \<open>_process_stream\<close> passes on depend only on the concatenation of the
  fragments: two fragment sequences of the same text give the same records in the same
  order. In particular every split of
  \<open>"LYRIC: a\nSENTENCE: b\n<<END>>LYRIC: c\nSENTENCE: d\n<<END>>"\<close> gives \<open>{a, b}\<close> and
  then \<open>{c, d}\<close>.
\<close>

theorem process_stream_split_independent:
  "(concat (map chunk_text cs) = concat (map chunk_text cs') \<longrightarrow>
      process_stream cs = process_stream cs')
   \<and> (concat (map chunk_text cs)
        = ''LYRIC: a\<newline>SENTENCE: b\<newline><<END>>LYRIC: c\<newline>SENTENCE: d\<newline><<END>>'' \<longrightarrow>
      process_stream cs = [\<lparr>lyric = Some ''a'', sentence = Some ''b''\<rparr>,
                           \<lparr>lyric = Some ''c'', sentence = Some ''d''\<rparr>])"
proof (intro conjI impI)
  assume "concat (map chunk_text cs) = concat (map chunk_text cs')"
  then show "process_stream cs = process_stream cs'"
    using process_stream_whole [of cs] process_stream_whole [of cs'] by simp
next
  assume whole:
    "concat (map chunk_text cs)
     = ''LYRIC: a\<newline>SENTENCE: b\<newline><<END>>LYRIC: c\<newline>SENTENCE: d\<newline><<END>>''"
  have "process_stream
          [Some [''LYRIC: a\<newline>SENTENCE: b\<newline><<END>>LYRIC: c\<newline>SENTENCE: d\<newline><<END>>'']]
        = [\<lparr>lyric = Some ''a'', sentence = Some ''b''\<rparr>,
           \<lparr>lyric = Some ''c'', sentence = Some ''d''\<rparr>]"
    by code_simp
  then show "process_stream cs = [\<lparr>lyric = Some ''a'', sentence = Some ''b''\<rparr>,
                                   \<lparr>lyric = Some ''c'', sentence = Some ''d''\<rparr>]"
    using process_stream_whole [of cs] whole by simp
qed

theorem process_stream_split_independent_witness:
  "concat (map chunk_text
      [Some [''LYRIC: a\<newline>SENT''], None,
       Some [''ENCE: b\<newline><<E'', ''ND>>LYRIC: c\<newline>SENTENCE: d\<newline><<END>>'']])
   = concat (map chunk_text
      [Some [''LYRIC: a\<newline>SENTENCE: b\<newline><<END>>LYRIC: c\<newline>SENTENCE: d\<newline><<END>>'']])
   \<and> process_stream
        [Some [''LYRIC: a\<newline>SENT''], None,
         Some [''ENCE: b\<newline><<E'', ''ND>>LYRIC: c\<newline>SENTENCE: d\<newline><<END>>'']]
     = process_stream
        [Some [''LYRIC: a\<newline>SENTENCE: b\<newline><<END>>LYRIC: c\<newline>SENTENCE: d\<newline><<END>>'']]
   \<and> process_stream
        [Some [''LYRIC: a\<newline>SENT''], None,
         Some [''ENCE: b\<newline><<E'', ''ND>>LYRIC: c\<newline>SENTENCE: d\<newline><<END>>'']]
     = [\<lparr>lyric = Some ''a'', sentence = Some ''b''\<rparr>,
        \<lparr>lyric = Some ''c'', sentence = Some ''d''\<rparr>]"
proof -
  let ?cs = "[Some [''LYRIC: a\<newline>SENT''], None,
       Some [''ENCE: b\<newline><<E'', ''ND>>LYRIC: c\<newline>SENTENCE: d\<newline><<END>>'']]"
  let ?cs' = "[Some [''LYRIC: a\<newline>SENTENCE: b\<newline><<END>>LYRIC: c\<newline>SENTENCE: d\<newline><<END>>'']]"
  have a: "concat (map chunk_text ?cs)
   = ''LYRIC: a\<newline>SENTENCE: b\<newline><<END>>LYRIC: c\<newline>SENTENCE: d\<newline><<END>>''"
    by (simp add: chunk_text_def)
  have b: "concat (map chunk_text ?cs')
   = ''LYRIC: a\<newline>SENTENCE: b\<newline><<END>>LYRIC: c\<newline>SENTENCE: d\<newline><<END>>''"
    by (simp add: chunk_text_def)
  have ab: "concat (map chunk_text ?cs) = concat (map chunk_text ?cs')"
    unfolding a b ..
  note th = process_stream_split_independent [of ?cs ?cs']
  have 1: "process_stream ?cs = process_stream ?cs'"
    using th [THEN conjunct1] ab by (rule mp)
  have 2: "process_stream ?cs = [\<lparr>lyric = Some ''a'', sentence = Some ''b''\<rparr>,
                                  \<lparr>lyric = Some ''c'', sentence = Some ''d''\<rparr>]"
    using th [THEN conjunct2] a by (rule mp)
  show ?thesis
    using ab 1 2 by (intro conjI)
qed

text \<open>
  C7: a candidate in which no \<open>LYRIC:\<close> line, or no \<open>SENTENCE:\<close> line, carries a non-empty
  text is dropped, and the candidates after its \<open><<END>>\<close> are processed as if it had not
  been there. In particular every split of
  \<open>"LYRIC: x\n<<END>>LYRIC: y\nSENTENCE: z\n<<END>>"\<close> gives the one record \<open>{y, z}\<close>.
\<close>

theorem dropped_candidate_does_not_abort:
  "(\<not> py_in END_MARKER sec
      \<and> (lacks_field LYRIC_PREFIX sec \<or> lacks_field SENTENCE_PREFIX sec)
      \<and> concat (map chunk_text cs) = sec @ END_MARKER @ rest \<longrightarrow>
    process_stream cs = process_stream [Some [rest]])
   \<and> (concat (map chunk_text cs')
        = ''LYRIC: x\<newline><<END>>LYRIC: y\<newline>SENTENCE: z\<newline><<END>>'' \<longrightarrow>
      process_stream cs' = [\<lparr>lyric = Some ''y'', sentence = Some ''z''\<rparr>])"
proof (intro conjI impI)
  assume h: "\<not> py_in END_MARKER sec
      \<and> (lacks_field LYRIC_PREFIX sec \<or> lacks_field SENTENCE_PREFIX sec)
      \<and> concat (map chunk_text cs) = sec @ END_MARKER @ rest"
  then have "emit_section (py_strip sec) = []"
    using emit_section_lacking [of sec] by simp
  then show "process_stream cs = process_stream [Some [rest]]"
    using process_stream_candidate [of sec cs rest] h by simp
next
  assume whole: "concat (map chunk_text cs')
        = ''LYRIC: x\<newline><<END>>LYRIC: y\<newline>SENTENCE: z\<newline><<END>>''"
  have "process_stream [Some [''LYRIC: x\<newline><<END>>LYRIC: y\<newline>SENTENCE: z\<newline><<END>>'']]
        = [\<lparr>lyric = Some ''y'', sentence = Some ''z''\<rparr>]"
    by code_simp
  then show "process_stream cs' = [\<lparr>lyric = Some ''y'', sentence = Some ''z''\<rparr>]"
    using process_stream_whole [of cs'] whole by simp
qed

theorem dropped_candidate_does_not_abort_witness:
  "\<not> py_in END_MARKER ''LYRIC: x\<newline>''
   \<and> lacks_field SENTENCE_PREFIX ''LYRIC: x\<newline>''
   \<and> concat (map chunk_text
        [Some [''LYRIC: x\<newline><<E''], Some [''ND>>LYRIC: y\<newline>SENTENCE: z\<newline><<END>>'']])
     = ''LYRIC: x\<newline>'' @ END_MARKER @ ''LYRIC: y\<newline>SENTENCE: z\<newline><<END>>''
   \<and> process_stream
        [Some [''LYRIC: x\<newline><<E''], Some [''ND>>LYRIC: y\<newline>SENTENCE: z\<newline><<END>>'']]
     = process_stream [Some [''LYRIC: y\<newline>SENTENCE: z\<newline><<END>>'']]
   \<and> process_stream
        [Some [''LYRIC: x\<newline><<E''], Some [''ND>>LYRIC: y\<newline>SENTENCE: z\<newline><<END>>'']]
     = [\<lparr>lyric = Some ''y'', sentence = Some ''z''\<rparr>]"
proof -
  let ?sec = "''LYRIC: x\<newline>''"
  let ?rest = "''LYRIC: y\<newline>SENTENCE: z\<newline><<END>>''"
  let ?cs = "[Some [''LYRIC: x\<newline><<E''], Some [''ND>>LYRIC: y\<newline>SENTENCE: z\<newline><<END>>'']]"
  have a: "\<not> py_in END_MARKER ?sec"
    by code_simp
  have b: "lacks_field SENTENCE_PREFIX ?sec"
    by code_simp
  have c: "concat (map chunk_text ?cs) = ?sec @ END_MARKER @ ?rest"
    by (simp add: chunk_text_def END_MARKER_def)
  have d: "concat (map chunk_text ?cs)
           = ''LYRIC: x\<newline><<END>>LYRIC: y\<newline>SENTENCE: z\<newline><<END>>''"
    by (simp add: chunk_text_def)
  note th = dropped_candidate_does_not_abort [of ?sec ?cs ?rest ?cs]
  have 1: "process_stream ?cs = process_stream [Some [?rest]]"
    using th [THEN conjunct1] a b c by blast
  have 2: "process_stream ?cs = [\<lparr>lyric = Some ''y'', sentence = Some ''z''\<rparr>]"
    using th [THEN conjunct2] d by (rule mp)
  show ?thesis
    using a b c 1 2 by (intro conjI)
qed


section \<open>Properties of the retrying analysis task\<close>











section \<open>Properties of the image searcher\<close>

lemma is_argsort_insertion: "is_argsort xs (argsort_insertion xs)"
  by (auto simp: is_argsort_def argsort_insertion_def)

lemma py_slice_from_drop: "\<exists>n. py_slice_from start ys = drop n ys"
  by (auto simp: py_slice_from_def)

lemma top_k_indices_descending:
  assumes "is_argsort xs (np_argsort xs)"
  shows "sorted_wrt (\<lambda>i j. xs ! j \<le> xs ! i) (top_k_indices np_argsort xs k)"
proof -
  obtain n where n: "py_slice_from (- k) (np_argsort xs) = drop n (np_argsort xs)"
    using py_slice_from_drop by blast
  have "sorted_wrt (\<lambda>i j. xs ! i \<le> xs ! j) (np_argsort xs)"
    using assms by (simp add: is_argsort_def sorted_map)
  then have "sorted_wrt (\<lambda>i j. xs ! i \<le> xs ! j) (drop n (np_argsort xs))"
    by (rule sorted_wrt_drop)
  then show ?thesis
    by (simp add: top_k_indices_def n sorted_wrt_rev)
qed

lemma top_k_indices_subseq:
  "subseq (top_k_indices np_argsort xs k) (rev (np_argsort xs))"
proof -
  obtain n where n: "py_slice_from (- k) (np_argsort xs) = drop n (np_argsort xs)"
    using py_slice_from_drop by blast
  have "rev (drop n (np_argsort xs))
        = take (length (np_argsort xs) - n) (rev (np_argsort xs))"
    by (rule rev_drop)
  moreover have "subseq (take (length (np_argsort xs) - n) (rev (np_argsort xs)))
                   (rev (np_argsort xs))"
    using take_is_prefix by (rule prefix_imp_subseq)
  ultimately show ?thesis
    by (simp add: top_k_indices_def n)
qed

lemma length_top_k_indices:
  assumes "0 < k" and "is_argsort xs (np_argsort xs)"
  shows "length (top_k_indices np_argsort xs k) = min (nat k) (length xs)"
  using assms by (auto simp: top_k_indices_def py_slice_from_def is_argsort_def)

lemma is_argsort_distinct_pair:
  assumes "0 < c" and "is_argsort [c, 0] order"
  shows "order = [1, 0]"
proof -
  have len: "length order = Suc (Suc 0)" and st: "set order = {0, 1}"
    and so: "sorted (map (\<lambda>i. [c, 0] ! i) order)"
    using assms(2) unfolding is_argsort_def by (simp_all add: atLeast0_lessThan_Suc insert_commute)
  obtain a r where ar: "order = a # r" and lr: "length r = Suc 0"
    using len by (auto simp: length_Suc_conv)
  obtain b where b: "r = [b]"
    using lr by (auto simp: length_Suc_conv)
  have ab: "order = [a, b]"
    by (simp add: ar b)
  have set: "{a, b} = {0, 1}"
    using st unfolding ab by simp
  have "a \<noteq> 0"
  proof
    assume a0: "a = 0"
    then have "b = 1"
      using set by (auto simp: doubleton_eq_iff)
    then show False
      using so assms(1) a0 unfolding ab by simp
  qed
  then have "a = 1" and "b = 0"
    using set by (auto simp: doubleton_eq_iff)
  then show ?thesis
    by (simp add: ab)
qed

lemma argsort_insertion_tied_pair: "argsort_insertion [c, c] = [0, 1]"
  by (simp add: argsort_insertion_def upt_conv_Cons)

lemma search_Some:
  assumes "length q = embedding_dim s"
  shows "search np_argsort s (Some q) k
         = Some (map (\<lambda>i. (image_paths s ! i, similarities_of s q ! i))
                   (filter (\<lambda>i. i < length (image_paths s))
                      (top_k_indices np_argsort (similarities_of s q) k)))"
  using assms by (simp add: search_def Let_def)

lemma search_length_le:
  assumes "0 < k" and "search np_argsort s (Some q) k = Some r"
    and "is_argsort (similarities_of s q) (np_argsort (similarities_of s q))"
  shows "length r \<le> nat k"
proof -
  have len: "length q = embedding_dim s"
    using assms(2) by (auto simp: search_def split: if_splits)
  have "length r \<le> length (top_k_indices np_argsort (similarities_of s q) k)"
    using assms(2) unfolding search_Some [OF len] by auto
  then show ?thesis
    using length_top_k_indices [of k "similarities_of s q" np_argsort] assms(1,3) by simp
qed

lemma search_descending:
  assumes "search np_argsort s (Some q) k = Some r"
    and "is_argsort (similarities_of s q) (np_argsort (similarities_of s q))"
  shows "sorted_wrt (\<lambda>a b. snd b \<le> snd a) r"
proof -
  have len: "length q = embedding_dim s"
    using assms(1) by (auto simp: search_def split: if_splits)
  define sim where "sim = similarities_of s q"
  have "sorted_wrt (\<lambda>i j. sim ! j \<le> sim ! i) (top_k_indices np_argsort sim k)"
    using assms(2) unfolding sim_def by (rule top_k_indices_descending)
  then have "sorted_wrt (\<lambda>i j. sim ! j \<le> sim ! i)
               (filter (\<lambda>i. i < length (image_paths s)) (top_k_indices np_argsort sim k))"
    by (rule sorted_wrt_filter)
  then show ?thesis
    using assms(1) unfolding search_Some [OF len] sim_def
    by (auto simp: sorted_wrt_map)
qed

lemma normalize_row_one: "normalize_row [1] = [1 / (1 + EPSILON)]"
  by (simp add: normalize_row_def l2_norm_def)

lemma normalize_row_zero: "normalize_row [0] = [0]"
  by (simp add: normalize_row_def l2_norm_def)

lemma similarities_one_zero:
  "similarities_of
     (normalize_embeddings
        \<lparr>loaded_embeddings = [[1], [0]], loaded_dim = 1,
         loaded_paths = [''first'', ''second'']\<rparr>) [1]
   = [1 / (1 + EPSILON) * (1 / (1 + EPSILON)), 0]"
  by (simp add: similarities_of_def normalize_embeddings_def normalize_row_one
      normalize_row_zero dot_def)

lemma similarities_one_one:
  "similarities_of
     (normalize_embeddings
        \<lparr>loaded_embeddings = [[1], [1]], loaded_dim = 1,
         loaded_paths = [''first'', ''second'']\<rparr>) [1]
   = [1 / (1 + EPSILON) * (1 / (1 + EPSILON)), 1 / (1 + EPSILON) * (1 / (1 + EPSILON))]"
  by (simp add: similarities_of_def normalize_embeddings_def normalize_row_one dot_def)

text \<open>
  C4 at \<open>top_k = 0\<close>: the slice \<open>[-0:]\<close> is the whole array, so a search for zero
  results over an index of two entries returns both, whatever ascending index sort
  \<open>np.argsort\<close> is (the two scores differ, so the contract fixes the order). For
  \<open>top_k > 0\<close> the result has at most \<open>top_k\<close> entries in descending score order, lemmas
  \<open>search_length_le\<close> and \<open>search_descending\<close>.
\<close>

theorem search_top_k_zero_returns_all:
  assumes "is_argsort [1 / (1 + EPSILON) * (1 / (1 + EPSILON)), 0]
             (np_argsort [1 / (1 + EPSILON) * (1 / (1 + EPSILON)), 0])"
  shows "search np_argsort
     (normalize_embeddings
        \<lparr>loaded_embeddings = [[1], [0]], loaded_dim = 1,
         loaded_paths = [''first'', ''second'']\<rparr>)
     (Some [1]) 0
   = Some [(''first'', 1 / (1 + EPSILON) * (1 / (1 + EPSILON))), (''second'', 0)]"
proof -
  define s where "s = normalize_embeddings
        \<lparr>loaded_embeddings = [[1], [0]], loaded_dim = 1,
         loaded_paths = [''first'', ''second'']\<rparr>"
  define c where "c = 1 / (1 + EPSILON) * (1 / (1 + EPSILON))"
  have c: "0 < c"
    by (simp add: c_def EPSILON_def)
  have sim: "similarities_of s [1] = [c, 0]"
    unfolding s_def c_def by (rule similarities_one_zero)
  have dim: "length [1::real] = embedding_dim s"
    by (simp add: s_def normalize_embeddings_def)
  have paths: "image_paths s = [''first'', ''second'']"
    by (simp add: s_def normalize_embeddings_def)
  have "np_argsort [c, 0] = [1, 0]"
    using c assms unfolding c_def by (rule is_argsort_distinct_pair)
  then have top: "top_k_indices np_argsort [c, 0] 0 = [0, 1]"
    by (simp add: top_k_indices_def py_slice_from_def)
  have "search np_argsort s (Some [1]) 0 = Some [(''first'', c), (''second'', 0)]"
    unfolding search_Some [OF dim] sim top paths by simp
  then show ?thesis
    unfolding s_def c_def .
qed

theorem search_top_k_zero_returns_all_witness:
  "is_argsort [1 / (1 + EPSILON) * (1 / (1 + EPSILON)), 0]
     (argsort_insertion [1 / (1 + EPSILON) * (1 / (1 + EPSILON)), 0])
   \<and> search argsort_insertion
     (normalize_embeddings
        \<lparr>loaded_embeddings = [[1], [0]], loaded_dim = 1,
         loaded_paths = [''first'', ''second'']\<rparr>)
     (Some [1]) 0
   = Some [(''first'', 1 / (1 + EPSILON) * (1 / (1 + EPSILON))), (''second'', 0)]"
proof -
  have a: "is_argsort [1 / (1 + EPSILON) * (1 / (1 + EPSILON)), 0]
     (argsort_insertion [1 / (1 + EPSILON) * (1 / (1 + EPSILON)), 0])"
    by (rule is_argsort_insertion)
  show ?thesis
    using search_top_k_zero_returns_all [of argsort_insertion] a by (intro conjI) simp_all
qed

text \<open>
  C5 as stated fails: two entries with the same vector score the same; on the two equal
  scores the index sort returns \<open>[0, 1]\<close>, and after the reversal the entry loaded second
  comes first in the result.
\<close>

theorem search_tie_first_seen_counterexample:
  "search argsort_insertion
     (normalize_embeddings
        \<lparr>loaded_embeddings = [[1], [1]], loaded_dim = 1,
         loaded_paths = [''first'', ''second'']\<rparr>)
     (Some [1]) 2
   = Some [(''second'', 1 / (1 + EPSILON) * (1 / (1 + EPSILON))),
           (''first'', 1 / (1 + EPSILON) * (1 / (1 + EPSILON)))]"
proof -
  define s where "s = normalize_embeddings
        \<lparr>loaded_embeddings = [[1], [1]], loaded_dim = 1,
         loaded_paths = [''first'', ''second'']\<rparr>"
  define c where "c = 1 / (1 + EPSILON) * (1 / (1 + EPSILON))"
  have sim: "similarities_of s [1] = [c, c]"
    unfolding s_def c_def by (rule similarities_one_one)
  have dim: "length [1::real] = embedding_dim s"
    by (simp add: s_def normalize_embeddings_def)
  have paths: "image_paths s = [''first'', ''second'']"
    by (simp add: s_def normalize_embeddings_def)
  have top: "top_k_indices argsort_insertion [c, c] 2 = [1, 0]"
    by (simp add: top_k_indices_def py_slice_from_def argsort_insertion_tied_pair)
  have "search argsort_insertion s (Some [1]) 2 = Some [(''second'', c), (''first'', c)]"
    unfolding search_Some [OF dim] sim top paths by simp
  then show ?thesis
    unfolding s_def c_def .
qed

text \<open>
  C5, amended: search has no tie-break by original index order. For every ascending
  index sort \<open>np.argsort\<close>, the result lists entries in descending order of score, and
  its entries appear in the reverse of the order in which \<open>np.argsort\<close> lists them; so
  among equally scored entries the one that \<open>np.argsort\<close> lists later comes first,
  whichever was loaded first.
\<close>

theorem search_ties_reverse_argsort_order:
  assumes "length q = embedding_dim s" and "sim = similarities_of s q"
    and "is_argsort sim (np_argsort sim)"
  shows "\<exists>ixs. search np_argsort s (Some q) k
                = Some (map (\<lambda>i. (image_paths s ! i, sim ! i)) ixs)
            \<and> sorted_wrt (\<lambda>i j. sim ! j \<le> sim ! i) ixs
            \<and> subseq ixs (rev (np_argsort sim))"
proof -
  define ixs where
    "ixs = filter (\<lambda>i. i < length (image_paths s)) (top_k_indices np_argsort sim k)"
  have "sorted_wrt (\<lambda>i j. sim ! j \<le> sim ! i) (top_k_indices np_argsort sim k)"
    using assms(3) by (rule top_k_indices_descending)
  then have desc: "sorted_wrt (\<lambda>i j. sim ! j \<le> sim ! i) ixs"
    unfolding ixs_def by (rule sorted_wrt_filter)
  have "subseq ixs (top_k_indices np_argsort sim k)"
    by (simp add: ixs_def)
  then have sub: "subseq ixs (rev (np_argsort sim))"
    using top_k_indices_subseq [of np_argsort sim k] by (rule subseq_order.trans)
  have "search np_argsort s (Some q) k = Some (map (\<lambda>i. (image_paths s ! i, sim ! i)) ixs)"
    unfolding search_Some [OF assms(1)] ixs_def assms(2) ..
  then show ?thesis
    using desc sub by blast
qed

theorem search_ties_reverse_argsort_order_witness:
  "length [1::real]
     = embedding_dim (normalize_embeddings
        \<lparr>loaded_embeddings = [[1], [1]], loaded_dim = 1,
         loaded_paths = [''first'', ''second'']\<rparr>)
   \<and> is_argsort [1 / (1 + EPSILON) * (1 / (1 + EPSILON)), 1 / (1 + EPSILON) * (1 / (1 + EPSILON))]
       (argsort_insertion
          [1 / (1 + EPSILON) * (1 / (1 + EPSILON)), 1 / (1 + EPSILON) * (1 / (1 + EPSILON))])
   \<and> (\<exists>ixs. search argsort_insertion
          (normalize_embeddings
             \<lparr>loaded_embeddings = [[1], [1]], loaded_dim = 1,
              loaded_paths = [''first'', ''second'']\<rparr>)
          (Some [1]) 2
        = Some (map (\<lambda>i. ([''first'', ''second''] ! i,
                     [1 / (1 + EPSILON) * (1 / (1 + EPSILON)),
                      1 / (1 + EPSILON) * (1 / (1 + EPSILON))] ! i)) ixs)
      \<and> sorted_wrt (\<lambda>i j.
            [1 / (1 + EPSILON) * (1 / (1 + EPSILON)), 1 / (1 + EPSILON) * (1 / (1 + EPSILON))] ! j
            \<le> [1 / (1 + EPSILON) * (1 / (1 + EPSILON)),
                1 / (1 + EPSILON) * (1 / (1 + EPSILON))] ! i) ixs
      \<and> subseq ixs (rev [0, 1]))"
proof -
  let ?s = "normalize_embeddings
        \<lparr>loaded_embeddings = [[1], [1]], loaded_dim = 1,
         loaded_paths = [''first'', ''second'']\<rparr>"
  let ?sim = "[1 / (1 + EPSILON) * (1 / (1 + EPSILON)), 1 / (1 + EPSILON) * (1 / (1 + EPSILON))]"
  have dim: "length [1::real] = embedding_dim ?s"
    by (simp add: normalize_embeddings_def)
  have paths: "image_paths ?s = [''first'', ''second'']"
    by (simp add: normalize_embeddings_def)
  have sim: "?sim = similarities_of ?s [1]"
    by (rule similarities_one_one [symmetric])
  have srt: "is_argsort ?sim (argsort_insertion ?sim)"
    by (rule is_argsort_insertion)
  have ord: "argsort_insertion ?sim = [0, 1]"
    by (rule argsort_insertion_tied_pair)
  have "\<exists>ixs. search argsort_insertion ?s (Some [1]) 2
                = Some (map (\<lambda>i. (image_paths ?s ! i, ?sim ! i)) ixs)
            \<and> sorted_wrt (\<lambda>i j. ?sim ! j \<le> ?sim ! i) ixs
            \<and> subseq ixs (rev (argsort_insertion ?sim))"
    using dim sim srt
    by (rule search_ties_reverse_argsort_order [of "[1]" ?s ?sim argsort_insertion 2])
  then have "\<exists>ixs. search argsort_insertion ?s (Some [1]) 2
                = Some (map (\<lambda>i. ([''first'', ''second''] ! i, ?sim ! i)) ixs)
            \<and> sorted_wrt (\<lambda>i j. ?sim ! j \<le> ?sim ! i) ixs
            \<and> subseq ixs (rev [0, 1])"
    unfolding paths ord .
  then show ?thesis
    using dim srt by (intro conjI)
qed

text \<open>
  C9 as stated fails: with one vector and no identifier the load step completes, keeps
  both artifacts as they are, and only logs the mismatch.
\<close>

theorem load_data_mismatch_counterexample:
  "load_data (Contents ([[1]], 1)) (Contents [])
   = Inr (\<lparr>loaded_embeddings = [[1]], loaded_dim = 1, loaded_paths = []\<rparr>, [Warning_mismatch])"
  by (simp add: load_data_def)

text \<open>
  C9, amended: when the persisted vector array and the persisted identifier list have
  different lengths, the load step logs a mismatch warning and completes with both
  artifacts kept exactly as persisted, neither failing nor truncating.
\<close>

theorem load_data_mismatch_kept:
  assumes "length paths \<noteq> length rows"
  shows "load_data (Contents (rows, d)) (Contents paths)
         = Inr (\<lparr>loaded_embeddings = rows, loaded_dim = d, loaded_paths = paths\<rparr>,
                [Warning_mismatch])
       \<and> (\<exists>s. init_searcher (Contents (rows, d)) (Contents paths) = Inr (s, [Warning_mismatch])
              \<and> image_embeddings s = rows \<and> image_paths s = paths)"
  using assms by (simp add: load_data_def init_searcher_def normalize_embeddings_def)

theorem load_data_mismatch_kept_witness:
  "length [''a'', ''b''] \<noteq> length [[1::real]]
   \<and> load_data (Contents ([[1]], 1)) (Contents [''a'', ''b''])
     = Inr (\<lparr>loaded_embeddings = [[1]], loaded_dim = 1, loaded_paths = [''a'', ''b'']\<rparr>,
            [Warning_mismatch])"
proof -
  have a: "length [''a'', ''b''] \<noteq> length [[1::real]]"
    by simp
  show ?thesis
    using load_data_mismatch_kept [OF a, of 1] a by blast
qed

end
